theory Spec2Isabelle
  imports Main
begin

section \<open>ReverseDict: a dictionary with a lazily built, cached inverse\<close>

text \<open>
  The embedding follows \<^verbatim>\<open>src/reverse_dict.py\<close>. Python is dynamically typed and
  \<^verbatim>\<open>__getitem__\<close> returns a stored value or a stored key depending on the branch, so
  keys and values live in one type \<open>'a\<close> of hashable objects, compared by HOL equality.
  Exceptions are values of \<open>error\<close>; a method that mutates \<^verbatim>\<open>self\<close> returns the new
  state next to its result, also when it raises.
\<close>

subsection \<open>Python's built-in dict and list operations\<close>

datatype error = KeyError | ValueError | IndexError

text \<open>
  A built-in \<^verbatim>\<open>dict\<close> keeps insertion order: it is an association list with unique
  keys. Storing under an existing key replaces the value in place; a new key goes last.
\<close>

fun dict_setitem :: "('k \<times> 'v) list \<Rightarrow> 'k \<Rightarrow> 'v \<Rightarrow> ('k \<times> 'v) list" where
  "dict_setitem [] k v = [(k, v)]"
| "dict_setitem ((k', v') # d) k v =
     (if k' = k then (k', v) # d else (k', v') # dict_setitem d k v)"

definition dict_contains :: "('k \<times> 'v) list \<Rightarrow> 'k \<Rightarrow> bool" where
  "dict_contains d k = (k \<in> set (map fst d))"

definition dict_getitem :: "('k \<times> 'v) list \<Rightarrow> 'k \<Rightarrow> error + 'v" where
  "dict_getitem d k = (case map_of d k of None \<Rightarrow> Inl KeyError | Some v \<Rightarrow> Inr v)"

definition dict_delitem :: "('k \<times> 'v) list \<Rightarrow> 'k \<Rightarrow> error + ('k \<times> 'v) list" where
  "dict_delitem d k =
     (if dict_contains d k then Inr (filter (\<lambda>p. fst p \<noteq> k) d) else Inl KeyError)"

text \<open>\<^verbatim>\<open>dict(pairs)\<close>: the pairs are stored one after the other.\<close>

definition dict_init :: "('k \<times> 'v) list \<Rightarrow> ('k \<times> 'v) list" where
  "dict_init args = fold (\<lambda>(k, v) d. dict_setitem d k v) args []"

text \<open>\<^verbatim>\<open>xs.index(x)\<close> is the first position of \<open>x\<close>, and raises ValueError without one.\<close>

fun list_index :: "'a list \<Rightarrow> 'a \<Rightarrow> error + nat" where
  "list_index [] x = Inl ValueError"
| "list_index (y # ys) x =
     (if y = x then Inr 0
      else (case list_index ys x of Inl e \<Rightarrow> Inl e | Inr i \<Rightarrow> Inr (Suc i)))"

text \<open>\<^verbatim>\<open>del xs[i]\<close> for an index \<open>i \<ge> 0\<close>; out of range it raises IndexError.\<close>

definition list_delitem :: "'a list \<Rightarrow> nat \<Rightarrow> error + 'a list" where
  "list_delitem xs i =
     (if i < length xs then Inr (take i xs @ drop (Suc i) xs) else Inl IndexError)"

text \<open>
  A list iterator is an index into the list object it was made from, or exhausted for
  good (\<open>None\<close>). It reads the list as it is when \<^verbatim>\<open>next\<close> is called, so it sees every
  in-place change made since the iterator was created.
\<close>

type_synonym listiter = "nat option"

fun listiter_next :: "'a list \<Rightarrow> listiter \<Rightarrow> 'a option \<times> listiter" where
  "listiter_next xs None = (None, None)"
| "listiter_next xs (Some i) =
     (if i < length xs then (Some (xs ! i), Some (Suc i)) else (None, None))"

text \<open>
  \<^verbatim>\<open>zip(a, b)\<close> is lazy: it holds one iterator per argument and asks them in turn,
  stopping at the first that is exhausted.
\<close>

type_synonym zipiter = "listiter \<times> listiter"

definition zip_next :: "'a list \<Rightarrow> 'b list \<Rightarrow> zipiter \<Rightarrow> ('a \<times> 'b) option \<times> zipiter" where
  "zip_next xs ys it =
     (case listiter_next xs (fst it) of
        (None, i') \<Rightarrow> (None, (i', snd it))
      | (Some x, i') \<Rightarrow>
          (case listiter_next ys (snd it) of
             (None, j') \<Rightarrow> (None, (i', j'))
           | (Some y, j') \<Rightarrow> (Some (x, y), (i', j'))))"

subsection \<open>The class\<close>

text \<open>
  \<open>super_dict\<close> is the content of the \<^verbatim>\<open>dict\<close> base class; \<open>u_keys\<close>, \<open>u_values\<close>,
  \<open>u_inverse\<close> and \<open>u_inverse_items\<close> are the attributes \<^verbatim>\<open>_keys\<close>, \<^verbatim>\<open>_values\<close>,
  \<^verbatim>\<open>_inverse\<close> and \<^verbatim>\<open>_inverse_items\<close>. The last one is the zip object made in
  \<^verbatim>\<open>__init__\<close>: it aliases the two list objects, which the class only ever changes in
  place, so its state is the pair of positions and its items are read from the current
  \<open>u_values\<close> and \<open>u_keys\<close>.
\<close>

record 'a ReverseDict =
  super_dict :: "('a \<times> 'a) list"
  u_keys :: "'a list"
  u_values :: "'a list"
  u_inverse :: "('a \<times> 'a) list option"
  u_inverse_items :: zipiter

text \<open>
  \<^verbatim>\<open>__init__\<close>: the base class does the storing (it does not go through the overridden
  \<^verbatim>\<open>__setitem__\<close>), then the keys and values are listed from the dict that resulted.
  \<open>args\<close> is the sequence of pairs given positionally followed by the keyword pairs.
\<close>

definition init :: "('a \<times> 'a) list \<Rightarrow> 'a ReverseDict" where
  "init args =
     (let d = dict_init args in
      \<lparr> super_dict = d,
        u_keys = map fst d,
        u_values = map snd d,
        u_inverse = None,
        u_inverse_items = (Some 0, Some 0) \<rparr>)"

text \<open>
  The loop of the \<^verbatim>\<open>inverse\<close> property: it takes items from the zip object until it
  stops, storing each in the dict being built. Every item taken advances the first
  iterator, which bounds the number of rounds by what is left of \<open>vs\<close>.
\<close>

function for_item_in :: "'a list \<Rightarrow> 'a list \<Rightarrow> zipiter \<Rightarrow> ('a \<times> 'a) list
    \<Rightarrow> ('a \<times> 'a) list \<times> zipiter" where
  "for_item_in vs ks it d =
     (case zip_next vs ks it of
        (None, it') \<Rightarrow> (d, it')
      | (Some item, it') \<Rightarrow> for_item_in vs ks it' (dict_setitem d (fst item) (snd item)))"
  by pat_completeness auto
termination
proof (relation "measure (\<lambda>(vs, ks, it, d). case fst it of None \<Rightarrow> 0 | Some i \<Rightarrow> Suc (length vs) - i)")
  fix vs ks :: "'a list" and it it' :: zipiter and d :: "('a \<times> 'a) list"
    and x :: "('a \<times> 'a) option" and item :: "'a \<times> 'a"
  assume "(x, it') = zip_next vs ks it" and "x = Some item"
  then have z: "zip_next vs ks it = (Some item, it')"
    by simp
  have "\<exists>n. fst it = Some n \<and> n < length vs \<and> fst it' = Some (Suc n)"
  proof (cases "fst it")
    case None
    with z show ?thesis
      by (simp add: zip_next_def)
  next
    case (Some n)
    with z show ?thesis
      by (auto simp: zip_next_def split: if_splits prod.splits option.splits)
  qed
  then show "((vs, ks, it', dict_setitem d (fst item) (snd item)), (vs, ks, it, d))
      \<in> measure (\<lambda>(vs, ks, it, d). case fst it of None \<Rightarrow> 0 | Some i \<Rightarrow> Suc (length vs) - i)"
    by auto
qed simp

declare for_item_in.simps [simp del]

text \<open>
  The \<^verbatim>\<open>inverse\<close> property. The cache is filled when it is \<^verbatim>\<open>None\<close> and returned as
  it is otherwise; no other method assigns \<^verbatim>\<open>_inverse\<close>.
\<close>

definition inverse :: "'a ReverseDict \<Rightarrow> ('a \<times> 'a) list \<times> 'a ReverseDict" where
  "inverse s =
     (case u_inverse s of
        None \<Rightarrow>
          (case for_item_in (u_values s) (u_keys s) (u_inverse_items s) [] of
             (m, it') \<Rightarrow> (m, s\<lparr>u_inverse := Some m, u_inverse_items := it'\<rparr>))
      | Some m \<Rightarrow> (m, s))"

text \<open>\<^verbatim>\<open>__contains__\<close>: \<^verbatim>\<open>or\<close> evaluates its right operand only when the left is false.\<close>

definition contains :: "'a ReverseDict \<Rightarrow> 'a \<Rightarrow> bool \<times> 'a ReverseDict" where
  "contains s key =
     (if key \<in> set (u_keys s) then (True, s)
      else (case inverse s of (m, s') \<Rightarrow> (dict_contains m key, s')))"

text \<open>\<^verbatim>\<open>__setitem__\<close>: it returns nothing and raises nothing.\<close>

definition setitem :: "'a ReverseDict \<Rightarrow> 'a \<Rightarrow> 'a \<Rightarrow> 'a ReverseDict" where
  "setitem s key val =
     (let s1 = (if key \<notin> set (u_keys s)
                then s\<lparr>u_keys := u_keys s @ [key], u_values := u_values s @ [val]\<rparr>
                else s)
      in s1\<lparr>super_dict := dict_setitem (super_dict s1) key val\<rparr>)"

text \<open>
  \<^verbatim>\<open>__delitem__\<close>: the statements run in the source's order, and a statement that
  raises leaves the changes of the earlier ones in place.
\<close>

definition delitem :: "'a ReverseDict \<Rightarrow> 'a \<Rightarrow> (error + unit) \<times> 'a ReverseDict" where
  "delitem s key =
     (if key \<in> set (u_keys s) then
        (case dict_delitem (super_dict s) key of
           Inl e \<Rightarrow> (Inl e, s)
         | Inr d \<Rightarrow>
            (let s1 = s\<lparr>super_dict := d\<rparr> in
             case list_index (u_keys s1) key of
               Inl e \<Rightarrow> (Inl e, s1)
             | Inr index \<Rightarrow>
                (case list_delitem (u_keys s1) index of
                   Inl e \<Rightarrow> (Inl e, s1)
                 | Inr ks \<Rightarrow>
                    (let s2 = s1\<lparr>u_keys := ks\<rparr> in
                     case list_delitem (u_values s2) index of
                       Inl e \<Rightarrow> (Inl e, s2)
                     | Inr vs \<Rightarrow> (Inr (), s2\<lparr>u_values := vs\<rparr>)))))
      else (Inl KeyError, s))"

text \<open>
  \<^verbatim>\<open>invert\<close>: a new, empty ReverseDict filled through the overridden
  \<^verbatim>\<open>__setitem__\<close>, in the order of \<^verbatim>\<open>self.items()\<close>.
\<close>

definition invert :: "'a ReverseDict \<Rightarrow> 'a ReverseDict" where
  "invert s = fold (\<lambda>(key, val) inverted_dict. setitem inverted_dict val key)
                (super_dict s) (init [])"

text \<open>\<^verbatim>\<open>__getitem__\<close>: the second branch reads the property twice.\<close>

definition getitem :: "'a ReverseDict \<Rightarrow> 'a \<Rightarrow> (error + 'a) \<times> 'a ReverseDict" where
  "getitem s key =
     (if key \<in> set (u_keys s) then (dict_getitem (super_dict s) key, s)
      else (case inverse s of
              (m, s1) \<Rightarrow>
                if dict_contains m key
                then (case inverse s1 of (m', s2) \<Rightarrow> (dict_getitem m' key, s2))
                else (Inl KeyError, s1)))"

text \<open>The client expression \<^verbatim>\<open>m.inverse[v]\<close>: the property, then the dict's own lookup.\<close>

definition inverse_getitem :: "'a ReverseDict \<Rightarrow> 'a \<Rightarrow> (error + 'a) \<times> 'a ReverseDict" where
  "inverse_getitem s v = (case inverse s of (m, s') \<Rightarrow> (dict_getitem m v, s'))"

subsection \<open>Maps in use\<close>

text \<open>
  The representation invariant of a map that came from \<^verbatim>\<open>__init__\<close> and was changed
  only through the methods: the base dict has unique keys, \<^verbatim>\<open>_keys\<close> lists them in
  order, \<^verbatim>\<open>_values\<close> is as long as \<^verbatim>\<open>_keys\<close>, and the zip object is untouched
  as long as the cache is empty.
\<close>

definition invar :: "'a ReverseDict \<Rightarrow> bool" where
  "invar s =
     (distinct (map fst (super_dict s)) \<and>
      u_keys s = map fst (super_dict s) \<and>
      length (u_values s) = length (u_keys s) \<and>
      (case u_inverse s of None \<Rightarrow> u_inverse_items s = (Some 0, Some 0) | Some m \<Rightarrow> True))"

text \<open>A client's calls on one map, and the map they leave behind.\<close>

datatype 'a method_call =
  SetItem 'a 'a | DelItem 'a | GetItem 'a | Contains 'a | Inverse | Invert

fun after_call :: "'a method_call \<Rightarrow> 'a ReverseDict \<Rightarrow> 'a ReverseDict" where
  "after_call (SetItem k v) s = setitem s k v"
| "after_call (DelItem k) s = snd (delitem s k)"
| "after_call (GetItem k) s = snd (getitem s k)"
| "after_call (Contains k) s = snd (contains s k)"
| "after_call Inverse s = snd (inverse s)"
| "after_call Invert s = s"

definition after_calls :: "'a method_call list \<Rightarrow> 'a ReverseDict \<Rightarrow> 'a ReverseDict" where
  "after_calls cs s = fold after_call cs s"

text \<open>Objects for the concrete scenarios: strings and integers.\<close>

datatype pyobj = PyStr string | PyInt int

section \<open>Properties of the model\<close>

subsection \<open>The built-in operations\<close>

lemma map_of_dict_setitem: "map_of (dict_setitem d k v) = (map_of d)(k \<mapsto> v)"
  by (induction d) (auto simp: fun_eq_iff)

lemma keys_dict_setitem:
  "map fst (dict_setitem d k v) =
     (if k \<in> set (map fst d) then map fst d else map fst d @ [k])"
  by (induction d) (force+)

lemma keyset_dict_setitem:
  "fst ` set (dict_setitem d k v) = insert k (fst ` set d)"
  using keys_dict_setitem [of d k v, THEN arg_cong, of set] by (auto split: if_splits)

lemma dict_setitem_new: "k \<notin> set (map fst d) \<Longrightarrow> dict_setitem d k v = d @ [(k, v)]"
  by (induction d) auto

lemma distinct_dict_setitem:
  "distinct (map fst d) \<Longrightarrow> distinct (map fst (dict_setitem d k v))"
  by (simp add: keys_dict_setitem)

lemma fold_setitem_distinct:
  "distinct (map fst d) \<Longrightarrow>
   distinct (map fst (fold (\<lambda>item d. dict_setitem d (fst item) (snd item)) ps d))"
  by (induction ps arbitrary: d) (simp_all add: distinct_dict_setitem)

lemma fold_setitem_keys:
  "set (map fst (fold (\<lambda>item d. dict_setitem d (fst item) (snd item)) ps d)) =
     set (map fst d) \<union> fst ` set ps"
  by (induction ps arbitrary: d) (auto simp: keyset_dict_setitem)

lemma fold_setitem_map_of:
  "map_of (fold (\<lambda>item d. dict_setitem d (fst item) (snd item)) ps d) =
     map_of d ++ map_of (rev ps)"
proof (induction ps arbitrary: d)
  case Nil
  show ?case by simp
next
  case (Cons p ps)
  have "map_of (fold (\<lambda>item d. dict_setitem d (fst item) (snd item)) (p # ps) d) =
        map_of (dict_setitem d (fst p) (snd p)) ++ map_of (rev ps)"
    using Cons.IH by simp
  also have "\<dots> = (map_of d)(fst p \<mapsto> snd p) ++ map_of (rev ps)"
    by (simp only: map_of_dict_setitem)
  also have "\<dots> = map_of d ++ map_of (rev (p # ps))"
    by (cases p) (simp add: fun_eq_iff map_add_def split: option.splits)
  finally show ?case .
qed

lemma dict_init_fold:
  "dict_init args = fold (\<lambda>item d. dict_setitem d (fst item) (snd item)) args []"
  by (simp add: dict_init_def case_prod_unfold)

lemma list_index_present:
  "x \<in> set xs \<Longrightarrow> \<exists>i. list_index xs x = Inr i \<and> i < length xs \<and> xs ! i = x"
  by (induction xs) auto

lemma list_index_first:
  "list_index xs x = Inr i \<Longrightarrow> i < length xs \<and> xs ! i = x \<and> x \<notin> set (take i xs)"
proof (induction xs arbitrary: i)
  case Nil
  then show ?case by simp
next
  case (Cons y ys)
  show ?case
  proof (cases "y = x")
    case True
    with Cons.prems show ?thesis by simp
  next
    case False
    with Cons.prems obtain j where j: "list_index ys x = Inr j" "i = Suc j"
      by (auto split: sum.splits)
    with Cons.IH [of j] False show ?thesis by simp
  qed
qed

lemma list_index_absent: "x \<notin> set xs \<Longrightarrow> list_index xs x = Inl ValueError"
  by (induction xs) auto

lemma delete_at_index_distinct:
  "distinct xs \<Longrightarrow> list_index xs x = Inr i \<Longrightarrow>
   take i xs @ drop (Suc i) xs = filter (\<lambda>y. y \<noteq> x) xs"
proof (induction xs arbitrary: i)
  case Nil
  then show ?case by simp
next
  case (Cons y ys)
  show ?case
  proof (cases "y = x")
    case True
    with Cons.prems have "i = 0" and "x \<notin> set ys" by simp_all
    moreover from \<open>x \<notin> set ys\<close> have "filter (\<lambda>y. y \<noteq> x) ys = ys"
      by (induction ys) auto
    ultimately show ?thesis using True by simp
  next
    case False
    with Cons.prems obtain j where j: "list_index ys x = Inr j" "i = Suc j"
      by (auto split: sum.splits)
    with Cons.IH [of j] Cons.prems False show ?thesis by simp
  qed
qed

subsection \<open>The loop of the inverse property\<close>

lemma zip_next_both:
  "i < length vs \<Longrightarrow> i < length ks \<Longrightarrow>
   zip_next vs ks (Some i, Some i) = (Some (vs ! i, ks ! i), (Some (Suc i), Some (Suc i)))"
  by (simp add: zip_next_def)

lemma for_item_in_fold:
  "length vs = length ks \<Longrightarrow> i \<le> length vs \<Longrightarrow>
   for_item_in vs ks (Some i, Some i) d =
     (fold (\<lambda>item d. dict_setitem d (fst item) (snd item)) (zip (drop i vs) (drop i ks)) d,
      (None, Some (length ks)))"
proof (induction "length vs - i" arbitrary: i d)
  case 0
  then have "i = length vs" by simp
  with 0 show ?case
    by (subst for_item_in.simps) (simp add: zip_next_def)
next
  case (Suc n)
  then have lt: "i < length vs" "i < length ks" by simp_all
  have "for_item_in vs ks (Some i, Some i) d =
        for_item_in vs ks (Some (Suc i), Some (Suc i)) (dict_setitem d (vs ! i) (ks ! i))"
    by (subst for_item_in.simps) (simp add: zip_next_both lt)
  also have "\<dots> = (fold (\<lambda>item d. dict_setitem d (fst item) (snd item))
                      (zip (drop (Suc i) vs) (drop (Suc i) ks)) (dict_setitem d (vs ! i) (ks ! i)),
                    (None, Some (length ks)))"
    using Suc by (intro Suc.hyps) simp_all
  finally show ?case
    using lt by (simp flip: Cons_nth_drop_Suc)
qed

lemma inverse_cached: "u_inverse s = Some m \<Longrightarrow> inverse s = (m, s)"
  by (simp add: inverse_def)

lemma inverse_first:
  assumes "invar s" and "u_inverse s = None"
  shows "inverse s =
     (fold (\<lambda>item d. dict_setitem d (fst item) (snd item)) (zip (u_values s) (u_keys s)) [],
      s\<lparr>u_inverse := Some (fold (\<lambda>item d. dict_setitem d (fst item) (snd item))
                               (zip (u_values s) (u_keys s)) []),
        u_inverse_items := (None, Some (length (u_keys s)))\<rparr>)"
proof -
  from assms have "u_inverse_items s = (Some 0, Some 0)"
    and "length (u_values s) = length (u_keys s)"
    by (simp_all add: invar_def)
  with assms(2) for_item_in_fold [of "u_values s" "u_keys s" 0 "[]"] show ?thesis
    by (simp add: inverse_def)
qed

lemma inverse_sets_cache: "u_inverse (snd (inverse s)) = Some (fst (inverse s))"
  by (auto simp: inverse_def split: option.splits prod.splits)

lemma inverse_frame:
  "super_dict (snd (inverse s)) = super_dict s"
  "u_keys (snd (inverse s)) = u_keys s"
  "u_values (snd (inverse s)) = u_values s"
  by (auto simp: inverse_def split: option.splits prod.splits)

lemma inverse_map_of:
  assumes "invar s" and "u_inverse s = None"
  shows "map_of (fst (inverse s)) = map_of (rev (zip (u_values s) (u_keys s)))"
  using inverse_first [OF assms] by (simp add: fold_setitem_map_of)

subsection \<open>The invariant\<close>

lemma invar_init: "invar (init args)"
  by (simp add: invar_def init_def Let_def dict_init_fold fold_setitem_distinct)

lemma invar_setitem: "invar s \<Longrightarrow> invar (setitem s k v)"
  by (auto simp: invar_def setitem_def Let_def keys_dict_setitem split: option.splits)

lemma invar_inverse: "invar s \<Longrightarrow> invar (snd (inverse s))"
  by (auto simp: invar_def inverse_def split: option.splits prod.splits)

lemma delitem_absent: "k \<notin> set (u_keys s) \<Longrightarrow> delitem s k = (Inl KeyError, s)"
  by (simp add: delitem_def)

lemma delitem_present:
  assumes "invar s" and "k \<in> set (u_keys s)"
  shows "\<exists>i. list_index (u_keys s) k = Inr i \<and> i < length (u_keys s) \<and>
           delitem s k =
             (Inr (), s\<lparr>super_dict := filter (\<lambda>p. fst p \<noteq> k) (super_dict s),
                        u_keys := take i (u_keys s) @ drop (Suc i) (u_keys s),
                        u_values := take i (u_values s) @ drop (Suc i) (u_values s)\<rparr>)"
proof -
  from assms(2) obtain i where i: "list_index (u_keys s) k = Inr i" "i < length (u_keys s)"
    using list_index_present by fastforce
  from assms have "dict_contains (super_dict s) k"
    by (simp add: invar_def dict_contains_def)
  moreover from assms(1) have "length (u_values s) = length (u_keys s)"
    by (simp add: invar_def)
  ultimately show ?thesis
    using assms(2) i by (simp add: delitem_def dict_delitem_def list_delitem_def)
qed

lemma invar_delitem:
  assumes "invar s"
  shows "invar (snd (delitem s k))"
proof (cases "k \<in> set (u_keys s)")
  case False
  with assms show ?thesis by (simp add: delitem_absent)
next
  case True
  from delitem_present [OF assms True] obtain i where
    i: "list_index (u_keys s) k = Inr i" "i < length (u_keys s)" and
    d: "delitem s k =
          (Inr (), s\<lparr>super_dict := filter (\<lambda>p. fst p \<noteq> k) (super_dict s),
                     u_keys := take i (u_keys s) @ drop (Suc i) (u_keys s),
                     u_values := take i (u_values s) @ drop (Suc i) (u_values s)\<rparr>)"
    by blast
  from assms have ks: "u_keys s = map fst (super_dict s)" "distinct (u_keys s)"
    by (simp_all add: invar_def)
  have "take i (u_keys s) @ drop (Suc i) (u_keys s) = filter (\<lambda>y. y \<noteq> k) (u_keys s)"
    using ks(2) i(1) by (rule delete_at_index_distinct)
  also have "\<dots> = map fst (filter (\<lambda>p. fst p \<noteq> k) (super_dict s))"
    by (simp add: ks(1) filter_map comp_def)
  finally have keys: "take i (u_keys s) @ drop (Suc i) (u_keys s) =
      map fst (filter (\<lambda>p. fst p \<noteq> k) (super_dict s))" .
  have "distinct (map fst (filter (\<lambda>p. fst p \<noteq> k) (super_dict s)))"
    using assms by (simp add: invar_def distinct_map_filter)
  moreover have "length (take i (u_values s) @ drop (Suc i) (u_values s)) =
      length (take i (u_keys s) @ drop (Suc i) (u_keys s))"
    using assms by (simp add: invar_def)
  ultimately show ?thesis
    using assms keys unfolding d by (simp add: invar_def split: option.splits)
qed

lemma invar_contains: "invar s \<Longrightarrow> invar (snd (contains s k))"
  using invar_inverse [of s] by (cases "inverse s") (simp add: contains_def)

lemma invar_getitem: "invar s \<Longrightarrow> invar (snd (getitem s k))"
proof -
  assume s: "invar s"
  obtain m s1 where 1: "inverse s = (m, s1)"
    by (cases "inverse s")
  obtain m' s2 where 2: "inverse s1 = (m', s2)"
    by (cases "inverse s1")
  from s 1 have "invar s1"
    using invar_inverse [of s] by simp
  moreover from this 2 have "invar s2"
    using invar_inverse [of s1] by simp
  ultimately show ?thesis
    using s 1 2 by (simp add: getitem_def)
qed

lemma invar_after_call: "invar s \<Longrightarrow> invar (after_call c s)"
  by (cases c) (simp_all add: invar_setitem invar_delitem invar_getitem invar_contains invar_inverse)

lemma invar_after_calls: "invar s \<Longrightarrow> invar (after_calls cs s)"
  unfolding after_calls_def by (induction cs arbitrary: s) (simp_all add: invar_after_call)

lemma invar_fold_setitem:
  "invar s \<Longrightarrow> invar (fold (\<lambda>(key, val) t. setitem t val key) ps s)"
  by (induction ps arbitrary: s) (auto simp: invar_setitem)

lemma invar_invert: "invar (invert s)"
  by (simp add: invert_def invar_fold_setitem invar_init)

text \<open>
  So the invariant holds of every map a client can hold: one made by \<^verbatim>\<open>__init__\<close>,
  after any calls.
\<close>

lemma invar_in_use: "invar (after_calls cs (init args))"
  by (rule invar_after_calls) (rule invar_init)

subsection \<open>The cache, once filled, stays as it is\<close>

lemma u_inverse_setitem: "u_inverse (setitem s k v) = u_inverse s"
  by (simp add: setitem_def Let_def)

lemma u_inverse_delitem: "u_inverse (snd (delitem s k)) = u_inverse s"
  by (simp add: delitem_def Let_def split: sum.splits)

lemma contains_cached: "u_inverse s = Some m \<Longrightarrow> snd (contains s k) = s"
  by (simp add: contains_def inverse_cached)

lemma getitem_cached: "u_inverse s = Some m \<Longrightarrow> snd (getitem s k) = s"
  by (simp add: getitem_def inverse_cached)

lemma cache_after_call: "u_inverse s = Some m \<Longrightarrow> u_inverse (after_call c s) = Some m"
  by (cases c)
     (simp_all add: u_inverse_setitem u_inverse_delitem contains_cached getitem_cached
        inverse_cached)

lemma cache_after_calls: "u_inverse s = Some m \<Longrightarrow> u_inverse (after_calls cs s) = Some m"
  unfolding after_calls_def by (induction cs arbitrary: s) (simp_all add: cache_after_call)

lemma inverse_after_calls:
  "fst (inverse (after_calls cs (snd (inverse s)))) = fst (inverse s)"
  using cache_after_calls [OF inverse_sets_cache, of cs s] by (simp add: inverse_cached)

lemma after_calls_append: "after_calls (cs @ cs') s = after_calls cs' (after_calls cs s)"
  by (simp add: after_calls_def)

lemma inverse_twice: "inverse (snd (inverse s)) = (fst (inverse s), snd (inverse s))"
  using inverse_sets_cache [of s] by (simp add: inverse_cached)

lemma inverse_getitem_unfold:
  "inverse_getitem s v = (dict_getitem (fst (inverse s)) v, snd (inverse s))"
  by (simp add: inverse_getitem_def case_prod_unfold)

lemma contains_unfold:
  "contains s k =
     (if k \<in> set (u_keys s) then (True, s)
      else (dict_contains (fst (inverse s)) k, snd (inverse s)))"
  by (simp add: contains_def case_prod_unfold)

lemma getitem_unfold:
  "getitem s k =
     (if k \<in> set (u_keys s) then (dict_getitem (super_dict s) k, s)
      else if dict_contains (fst (inverse s)) k
           then (dict_getitem (fst (inverse s)) k, snd (inverse s))
           else (Inl KeyError, snd (inverse s)))"
  by (simp add: getitem_def case_prod_unfold inverse_twice)

lemma dict_getitem_absent: "\<not> dict_contains d k \<Longrightarrow> dict_getitem d k = Inl KeyError"
  using map_of_eq_None_iff [of d k] by (simp add: dict_contains_def dict_getitem_def)

lemma dict_getitem_present: "dict_contains d k \<Longrightarrow> \<exists>v. dict_getitem d k = Inr v \<and> map_of d k = Some v"
  using map_of_eq_None_iff [of d k]
  by (cases "map_of d k") (simp_all add: dict_contains_def dict_getitem_def)

lemmas run_defs =
  init_def dict_init_def setitem_def delitem_def getitem_def contains_def inverse_def
  inverse_getitem_def invert_def dict_getitem_def dict_contains_def dict_delitem_def
  list_delitem_def for_item_in_fold after_calls_def Let_def

subsection \<open>C1: the inverse is built once and cached\<close>

text \<open>
  C1, as the code has it. The first read of \<^verbatim>\<open>inverse\<close> builds the mapping from the
  pairs of \<^verbatim>\<open>_values\<close> and \<^verbatim>\<open>_keys\<close> as they stand at that moment (a later pair wins
  for a repeated value); a read with the cache filled returns the cache. After the first
  read, whatever calls \<open>cs\<close> follow, \<^verbatim>\<open>inverse\<close> returns the mapping of the first read.
  So a pair stored by \<^verbatim>\<open>m[k] = v\<close> after the first read does not show:
  \<^verbatim>\<open>m.inverse[v]\<close> is what the first mapping gives for \<open>v\<close>, KeyError when \<open>v\<close> was not
  in it and the key cached for \<open>v\<close> when it was.
\<close>

theorem inverse_built_once:
  assumes "invar s"
  shows "(case u_inverse s of
            None \<Rightarrow> map_of (fst (inverse s)) = map_of (rev (zip (u_values s) (u_keys s)))
          | Some m \<Rightarrow> fst (inverse s) = m) \<and>
         fst (inverse (after_calls cs (snd (inverse s)))) = fst (inverse s) \<and>
         fst (inverse_getitem (after_calls (cs @ [SetItem k v] @ cs') (snd (inverse s))) v) =
           dict_getitem (fst (inverse s)) v"
proof (intro conjI)
  show "case u_inverse s of
            None \<Rightarrow> map_of (fst (inverse s)) = map_of (rev (zip (u_values s) (u_keys s)))
          | Some m \<Rightarrow> fst (inverse s) = m"
    using assms by (simp add: inverse_map_of inverse_cached split: option.splits)
  show "fst (inverse (after_calls cs (snd (inverse s)))) = fst (inverse s)"
    by (rule inverse_after_calls)
  have "fst (inverse (after_calls (cs @ [SetItem k v] @ cs') (snd (inverse s)))) = fst (inverse s)"
    by (rule inverse_after_calls)
  then show "fst (inverse_getitem (after_calls (cs @ [SetItem k v] @ cs') (snd (inverse s))) v) =
           dict_getitem (fst (inverse s)) v"
    by (simp add: inverse_getitem_unfold)
qed

text \<open>
  The scenario of C1: the map built from \<^verbatim>\<open>{a: 1, b: 2}\<close>, \<^verbatim>\<open>inverse\<close> read (it is
  \<^verbatim>\<open>{1: a, 2: b}\<close>), then \<^verbatim>\<open>m[c] = 3\<close>: \<^verbatim>\<open>m.inverse[3]\<close> raises KeyError.
\<close>

theorem inverse_built_once_witness:
  "invar (init [(PyStr ''a'', PyInt 1), (PyStr ''b'', PyInt 2)]) \<and>
   fst (inverse (init [(PyStr ''a'', PyInt 1), (PyStr ''b'', PyInt 2)])) =
     [(PyInt 1, PyStr ''a''), (PyInt 2, PyStr ''b'')] \<and>
   fst (inverse_getitem
         (setitem (snd (inverse (init [(PyStr ''a'', PyInt 1), (PyStr ''b'', PyInt 2)])))
            (PyStr ''c'') (PyInt 3))
         (PyInt 3)) = Inl KeyError"
proof -
  have i: "invar (init [(PyStr ''a'', PyInt 1), (PyStr ''b'', PyInt 2)])"
    by (rule invar_init)
  have e: "fst (inverse (init [(PyStr ''a'', PyInt 1), (PyStr ''b'', PyInt 2)])) =
     [(PyInt 1, PyStr ''a''), (PyInt 2, PyStr ''b'')]"
    by (simp add: run_defs)
  from inverse_built_once [OF i, of "[]" "PyStr ''c''" "PyInt 3" "[]"] i e show ?thesis
    by (simp add: after_calls_def dict_getitem_def)
qed

text \<open>
  C1 as stated fails where the value stored after the first read was in the cache
  already: from \<^verbatim>\<open>{a: 1}\<close>, after \<^verbatim>\<open>inverse\<close> and \<^verbatim>\<open>m[c] = 1\<close>, \<^verbatim>\<open>m.inverse[1]\<close>
  returns \<^verbatim>\<open>a\<close> and raises nothing.
\<close>

theorem inverse_after_set_counterexample:
  "fst (inverse_getitem
         (setitem (snd (inverse (init [(PyStr ''a'', PyInt 1)]))) (PyStr ''c'') (PyInt 1))
         (PyInt 1)) = Inr (PyStr ''a'')"
  by (simp add: run_defs)

subsection \<open>C2: lookup goes forward first, then through the inverse\<close>

lemma map_of_rev_zip_SomeD:
  "map_of (rev (zip vs ks)) v = Some k \<Longrightarrow> (v, k) \<in> set (zip vs ks)"
  using map_of_SomeD [of "rev (zip vs ks)" v k] by simp

text \<open>
  C2. For a key in \<^verbatim>\<open>_keys\<close>, \<^verbatim>\<open>m[k]\<close> returns the value the dict stores for it and
  leaves the map as it is, whether or not \<open>k\<close> is also a stored value. For any other
  key it returns what the inverse view holds for \<open>k\<close>, and raises KeyError when the
  view has no entry for \<open>k\<close>; the call leaves the cache filled. When the view is built
  by this very call, the key it returns stands in \<^verbatim>\<open>_keys\<close> at a position where
  \<^verbatim>\<open>_values\<close> holds \<open>k\<close>.
\<close>

theorem getitem_forward_then_inverse:
  assumes "invar s"
  shows "(k \<in> set (u_keys s) \<longrightarrow>
            (\<exists>v. map_of (super_dict s) k = Some v \<and> getitem s k = (Inr v, s))) \<and>
         (k \<notin> set (u_keys s) \<longrightarrow>
            fst (getitem s k) =
              (case map_of (fst (inverse s)) k of
                 Some k0 \<Rightarrow> Inr k0
               | None \<Rightarrow> Inl KeyError) \<and>
            snd (getitem s k) = snd (inverse s)) \<and>
         (k \<notin> set (u_keys s) \<and> u_inverse s = None \<longrightarrow>
            (\<forall>k0. fst (getitem s k) = Inr k0 \<longrightarrow> (k, k0) \<in> set (zip (u_values s) (u_keys s))))"
proof (intro conjI impI)
  assume "k \<in> set (u_keys s)"
  with assms have "dict_contains (super_dict s) k"
    by (simp add: invar_def dict_contains_def)
  from dict_getitem_present [OF this] \<open>k \<in> set (u_keys s)\<close>
  show "\<exists>v. map_of (super_dict s) k = Some v \<and> getitem s k = (Inr v, s)"
    by (auto simp: getitem_unfold)
next
  assume k: "k \<notin> set (u_keys s)"
  show "fst (getitem s k) =
      (case map_of (fst (inverse s)) k of Some k0 \<Rightarrow> Inr k0 | None \<Rightarrow> Inl KeyError)"
  proof (cases "dict_contains (fst (inverse s)) k")
    case True
    with k show ?thesis
      by (simp add: getitem_unfold dict_getitem_def)
  next
    case False
    from dict_getitem_absent [OF this] False k show ?thesis
      by (simp add: getitem_unfold dict_getitem_def)
  qed
  from k show "snd (getitem s k) = snd (inverse s)"
    by (simp add: getitem_unfold)
next
  assume a: "k \<notin> set (u_keys s) \<and> u_inverse s = None"
  show "\<forall>k0. fst (getitem s k) = Inr k0 \<longrightarrow> (k, k0) \<in> set (zip (u_values s) (u_keys s))"
  proof (intro allI impI)
    fix k0
    assume g: "fst (getitem s k) = Inr k0"
    from a have m: "map_of (fst (inverse s)) = map_of (rev (zip (u_values s) (u_keys s)))"
      using inverse_map_of [OF assms] by simp
    from g a have "dict_getitem (fst (inverse s)) k = Inr k0"
      by (simp add: getitem_unfold split: if_splits)
    then have "map_of (fst (inverse s)) k = Some k0"
      by (simp add: dict_getitem_def split: option.splits)
    with m show "(k, k0) \<in> set (zip (u_values s) (u_keys s))"
      by (simp add: map_of_rev_zip_SomeD)
  qed
qed

text \<open>
  On \<^verbatim>\<open>{1: 2, 2: 3}\<close>: \<open>2\<close> is a key and a value, and \<^verbatim>\<open>m[2]\<close> is \<open>3\<close>; \<open>3\<close> is
  only a value, and \<^verbatim>\<open>m[3]\<close> is its key \<open>2\<close>; \<open>4\<close> is neither, and \<^verbatim>\<open>m[4]\<close>
  raises KeyError.
\<close>

theorem getitem_forward_then_inverse_witness:
  "invar (init [(PyInt 1, PyInt 2), (PyInt 2, PyInt 3)]) \<and>
   getitem (init [(PyInt 1, PyInt 2), (PyInt 2, PyInt 3)]) (PyInt 2) =
     (Inr (PyInt 3), init [(PyInt 1, PyInt 2), (PyInt 2, PyInt 3)]) \<and>
   fst (getitem (init [(PyInt 1, PyInt 2), (PyInt 2, PyInt 3)]) (PyInt 3)) = Inr (PyInt 2) \<and>
   fst (getitem (init [(PyInt 1, PyInt 2), (PyInt 2, PyInt 3)]) (PyInt 4)) = Inl KeyError"
proof -
  let ?s = "init [(PyInt 1, PyInt 2), (PyInt 2, PyInt 3)]"
  have i: "invar ?s"
    by (rule invar_init)
  have e: "fst (inverse ?s) = [(PyInt 2, PyInt 1), (PyInt 3, PyInt 2)]"
    "u_keys ?s = [PyInt 1, PyInt 2]" "super_dict ?s = [(PyInt 1, PyInt 2), (PyInt 2, PyInt 3)]"
    by (simp_all add: run_defs)
  from getitem_forward_then_inverse [OF i, of "PyInt 2"]
    getitem_forward_then_inverse [OF i, of "PyInt 3"]
    getitem_forward_then_inverse [OF i, of "PyInt 4"] i
  show ?thesis
    by (simp add: e)
qed

subsection \<open>C3: storing under a key already present\<close>

text \<open>
  C3 asks that after \<^verbatim>\<open>m[k] = v\<close>, with the cache still empty, \<^verbatim>\<open>m.inverse[v]\<close> is
  \<open>k\<close>, also for a key already present. \<^verbatim>\<open>__setitem__\<close> appends to \<^verbatim>\<open>_values\<close> for a
  new key only and has no branch that replaces the old value of a present key, so the
  inverse built afterwards still pairs the key with its old value. On \<^verbatim>\<open>{a: 1}\<close>,
  \<^verbatim>\<open>m[a] = 2\<close> stores \<^verbatim>\<open>{a: 2}\<close>, yet \<^verbatim>\<open>m.inverse\<close> is \<^verbatim>\<open>{1: a}\<close> and
  \<^verbatim>\<open>m.inverse[2]\<close> raises KeyError.
\<close>

theorem setitem_existing_key_stale_inverse:
  "u_inverse (init [(PyStr ''a'', PyInt 1)]) = None \<and>
   distinct (map snd (super_dict (init [(PyStr ''a'', PyInt 1)]))) \<and>
   u_inverse (setitem (init [(PyStr ''a'', PyInt 1)]) (PyStr ''a'') (PyInt 2)) = None \<and>
   super_dict (setitem (init [(PyStr ''a'', PyInt 1)]) (PyStr ''a'') (PyInt 2)) =
     [(PyStr ''a'', PyInt 2)] \<and>
   fst (inverse (setitem (init [(PyStr ''a'', PyInt 1)]) (PyStr ''a'') (PyInt 2))) =
     [(PyInt 1, PyStr ''a'')] \<and>
   fst (inverse_getitem (setitem (init [(PyStr ''a'', PyInt 1)]) (PyStr ''a'') (PyInt 2))
          (PyInt 2)) = Inl KeyError"
  by (simp add: run_defs)

subsection \<open>C6: the two parallel lists and the dict\<close>

text \<open>
  C6 asks that \<^verbatim>\<open>_values[i]\<close> is the value the dict stores for \<^verbatim>\<open>_keys[i]\<close>, after
  every store and delete. The lists do stay equally long (\<open>invar_setitem\<close>,
  \<open>invar_delitem\<close>), but a store under a present key changes the dict alone: on
  \<^verbatim>\<open>{a: 1}\<close>, after \<^verbatim>\<open>m[a] = 2\<close> the lists are \<^verbatim>\<open>[a]\<close> and \<^verbatim>\<open>[1]\<close> while the dict
  stores \<open>2\<close> for \<^verbatim>\<open>a\<close>.
\<close>

theorem setitem_existing_key_stale_values:
  "invar (init [(PyStr ''a'', PyInt 1)]) \<and>
   u_keys (setitem (init [(PyStr ''a'', PyInt 1)]) (PyStr ''a'') (PyInt 2)) = [PyStr ''a''] \<and>
   u_values (setitem (init [(PyStr ''a'', PyInt 1)]) (PyStr ''a'') (PyInt 2)) = [PyInt 1] \<and>
   dict_getitem (super_dict (setitem (init [(PyStr ''a'', PyInt 1)]) (PyStr ''a'') (PyInt 2)))
     (PyStr ''a'') = Inr (PyInt 2)"
  using invar_init [of "[(PyStr ''a'', PyInt 1)]"] by (simp add: run_defs)

subsection \<open>C8: repeated keys given to the initializer\<close>

lemma zip_map_fst_snd_id: "zip (map fst d) (map snd d) = d"
  by (induction d) auto

text \<open>
  C8, as the code has it. \<^verbatim>\<open>__init__\<close> lists \<^verbatim>\<open>_keys\<close> and \<^verbatim>\<open>_values\<close> from the dict
  the base class has built, so \<^verbatim>\<open>_keys\<close> has no repetition: every key given appears
  once, the two lists pair up to the dict's items, and the dict stores for each key the
  last value given for it.
\<close>

theorem init_keys_unique:
  "distinct (u_keys (init args)) \<and>
   set (u_keys (init args)) = fst ` set args \<and>
   zip (u_keys (init args)) (u_values (init args)) = super_dict (init args) \<and>
   map_of (super_dict (init args)) = map_of (rev args)"
  using fold_setitem_distinct [of "[]" args] fold_setitem_keys [of args "[]"]
    fold_setitem_map_of [of args "[]"]
  by (simp add: init_def Let_def dict_init_fold zip_map_fst_snd_id)

text \<open>
  C8 as stated fails: given \<^verbatim>\<open>[(a, 1), (a, 2)]\<close>, \<^verbatim>\<open>_keys\<close> is \<^verbatim>\<open>[a]\<close>, where
  \<^verbatim>\<open>a\<close> does not appear more than once.
\<close>

theorem init_duplicate_key_counterexample:
  "u_keys (init [(PyStr ''a'', PyInt 1), (PyStr ''a'', PyInt 2)]) = [PyStr ''a''] \<and>
   \<not> 1 < count_list (u_keys (init [(PyStr ''a'', PyInt 1), (PyStr ''a'', PyInt 2)])) (PyStr ''a'')"
  by (simp add: run_defs)

subsection \<open>C10: a failed lookup fills the cache\<close>

text \<open>
  C10. On a map with the cache still empty, \<^verbatim>\<open>m[k]\<close> for a key outside \<^verbatim>\<open>_keys\<close> fills
  the cache with the inverse of that moment, whether the call returns or raises KeyError
  (it raises exactly when that inverse has no entry for \<open>k\<close>). Whatever calls \<open>cs\<close>
  follow, \<^verbatim>\<open>inverse\<close> returns that same mapping, so that a pair stored later by
  \<^verbatim>\<open>m[k'] = v'\<close> does not show in it.
\<close>

theorem getitem_miss_freezes_cache:
  assumes "invar s" and "u_inverse s = None" and "k \<notin> set (u_keys s)"
  shows "u_inverse (snd (getitem s k)) = Some (fst (inverse s)) \<and>
         map_of (fst (inverse s)) = map_of (rev (zip (u_values s) (u_keys s))) \<and>
         (fst (getitem s k) = Inl KeyError) = (\<not> dict_contains (fst (inverse s)) k) \<and>
         fst (inverse (after_calls cs (snd (getitem s k)))) = fst (inverse s) \<and>
         fst (inverse_getitem (after_calls (cs @ [SetItem k' v'] @ cs') (snd (getitem s k))) v') =
           dict_getitem (fst (inverse s)) v'"
proof -
  from assms(3) have g: "snd (getitem s k) = snd (inverse s)"
    by (simp add: getitem_unfold)
  have r: "(fst (getitem s k) = Inl KeyError) = (\<not> dict_contains (fst (inverse s)) k)"
  proof (cases "dict_contains (fst (inverse s)) k")
    case True
    from dict_getitem_present [OF this] True assms(3) show ?thesis
      by (auto simp: getitem_unfold)
  next
    case False
    with assms(3) show ?thesis
      by (simp add: getitem_unfold)
  qed
  show ?thesis
    unfolding g
    using r inverse_map_of [OF assms(1,2)]
    by (simp add: inverse_sets_cache inverse_after_calls inverse_getitem_unfold)
qed

text \<open>
  On \<^verbatim>\<open>{a: 1}\<close>: \<^verbatim>\<open>m[z]\<close> raises KeyError and leaves the cache \<^verbatim>\<open>{1: a}\<close>; after
  \<^verbatim>\<open>m[c] = 3\<close> the inverse is still \<^verbatim>\<open>{1: a}\<close> and \<^verbatim>\<open>m.inverse[3]\<close> raises KeyError.
\<close>

theorem getitem_miss_freezes_cache_witness:
  "invar (init [(PyStr ''a'', PyInt 1)]) \<and>
   u_inverse (init [(PyStr ''a'', PyInt 1)]) = None \<and>
   PyStr ''z'' \<notin> set (u_keys (init [(PyStr ''a'', PyInt 1)])) \<and>
   fst (getitem (init [(PyStr ''a'', PyInt 1)]) (PyStr ''z'')) = Inl KeyError \<and>
   u_inverse (snd (getitem (init [(PyStr ''a'', PyInt 1)]) (PyStr ''z''))) =
     Some [(PyInt 1, PyStr ''a'')] \<and>
   fst (inverse (setitem (snd (getitem (init [(PyStr ''a'', PyInt 1)]) (PyStr ''z'')))
                   (PyStr ''c'') (PyInt 3))) = [(PyInt 1, PyStr ''a'')] \<and>
   fst (inverse_getitem (setitem (snd (getitem (init [(PyStr ''a'', PyInt 1)]) (PyStr ''z'')))
                   (PyStr ''c'') (PyInt 3)) (PyInt 3)) = Inl KeyError"
proof -
  let ?s = "init [(PyStr ''a'', PyInt 1)]"
  have i: "invar ?s"
    by (rule invar_init)
  have n: "u_inverse ?s = None"
    by (simp add: init_def Let_def)
  have k: "PyStr ''z'' \<notin> set (u_keys ?s)"
    by (simp add: run_defs)
  have e: "fst (inverse ?s) = [(PyInt 1, PyStr ''a'')]"
    "u_keys ?s = [PyStr ''a'']" "u_values ?s = [PyInt 1]"
    by (simp_all add: run_defs)
  from getitem_miss_freezes_cache [OF i n k, of "[SetItem (PyStr ''c'') (PyInt 3)]"]
    getitem_miss_freezes_cache [OF i n k, of "[]" "PyStr ''c''" "PyInt 3" "[]"] i n k
  show ?thesis
    by (simp add: e after_calls_def dict_contains_def dict_getitem_def)
qed

subsection \<open>C4: deleting a key\<close>

lemma getitem_outside_keys:
  assumes "k \<notin> set (u_keys s)"
  shows "fst (getitem s k) =
     (case map_of (fst (inverse s)) k of Some k0 \<Rightarrow> Inr k0 | None \<Rightarrow> Inl KeyError)"
proof (cases "dict_contains (fst (inverse s)) k")
  case True
  with assms show ?thesis
    by (simp add: getitem_unfold dict_getitem_def)
next
  case False
  from dict_getitem_absent [OF this] False assms show ?thesis
    by (simp add: getitem_unfold dict_getitem_def)
qed

lemma map_of_filter_other_keys:
  "map_of (filter (\<lambda>p. fst p \<noteq> k) d) v = (if v = k then None else map_of d v)"
  by (induction d) auto

text \<open>
  C4, as the code has it. For a key in \<^verbatim>\<open>_keys\<close>, \<^verbatim>\<open>del m[k]\<close> succeeds: it removes
  the dict's entry for \<open>k\<close> and the position \<open>i\<close> of the first \<open>k\<close> from \<^verbatim>\<open>_keys\<close> and
  from \<^verbatim>\<open>_values\<close>; afterwards \<open>k\<close> is in neither \<^verbatim>\<open>_keys\<close> nor the dict, and the
  \<^verbatim>\<open>m[k]\<close> that follows is answered by the inverse view alone: KeyError when the view
  has no entry for \<open>k\<close>, the entry otherwise. For a key outside \<^verbatim>\<open>_keys\<close>,
  \<^verbatim>\<open>del m[k]\<close> raises KeyError and changes nothing.
\<close>

theorem delitem_then_getitem:
  assumes "invar s"
  shows "(k \<in> set (u_keys s) \<longrightarrow>
            (\<exists>i. list_index (u_keys s) k = Inr i \<and> i < length (u_keys s) \<and>
                 delitem s k =
                   (Inr (), s\<lparr>super_dict := filter (\<lambda>p. fst p \<noteq> k) (super_dict s),
                              u_keys := take i (u_keys s) @ drop (Suc i) (u_keys s),
                              u_values := take i (u_values s) @ drop (Suc i) (u_values s)\<rparr>)) \<and>
            k \<notin> set (u_keys (snd (delitem s k))) \<and>
            map_of (super_dict (snd (delitem s k))) k = None \<and>
            fst (getitem (snd (delitem s k)) k) =
              (case map_of (fst (inverse (snd (delitem s k)))) k of
                 Some k0 \<Rightarrow> Inr k0
               | None \<Rightarrow> Inl KeyError)) \<and>
         (k \<notin> set (u_keys s) \<longrightarrow> delitem s k = (Inl KeyError, s))"
proof (intro conjI impI)
  assume k: "k \<in> set (u_keys s)"
  from delitem_present [OF assms k] obtain i where
    i: "list_index (u_keys s) k = Inr i" "i < length (u_keys s)" and
    d: "delitem s k =
          (Inr (), s\<lparr>super_dict := filter (\<lambda>p. fst p \<noteq> k) (super_dict s),
                     u_keys := take i (u_keys s) @ drop (Suc i) (u_keys s),
                     u_values := take i (u_values s) @ drop (Suc i) (u_values s)\<rparr>)"
    by blast
  from i d show "\<exists>i. list_index (u_keys s) k = Inr i \<and> i < length (u_keys s) \<and>
                 delitem s k =
                   (Inr (), s\<lparr>super_dict := filter (\<lambda>p. fst p \<noteq> k) (super_dict s),
                              u_keys := take i (u_keys s) @ drop (Suc i) (u_keys s),
                              u_values := take i (u_values s) @ drop (Suc i) (u_values s)\<rparr>)"
    by blast
  from d have sd: "super_dict (snd (delitem s k)) = filter (\<lambda>p. fst p \<noteq> k) (super_dict s)"
    by simp
  have "invar (snd (delitem s k))"
    using assms by (rule invar_delitem)
  then have "u_keys (snd (delitem s k)) = map fst (super_dict (snd (delitem s k)))"
    by (simp add: invar_def)
  with sd show out: "k \<notin> set (u_keys (snd (delitem s k)))"
    by auto
  from sd show "map_of (super_dict (snd (delitem s k))) k = None"
    by (simp add: map_of_filter_other_keys)
  from out show "fst (getitem (snd (delitem s k)) k) =
              (case map_of (fst (inverse (snd (delitem s k)))) k of
                 Some k0 \<Rightarrow> Inr k0
               | None \<Rightarrow> Inl KeyError)"
    by (rule getitem_outside_keys)
next
  assume "k \<notin> set (u_keys s)"
  then show "delitem s k = (Inl KeyError, s)"
    by (rule delitem_absent)
qed

text \<open>
  On \<^verbatim>\<open>{a: 1, b: 2}\<close>: \<^verbatim>\<open>del m[a]\<close> leaves the map \<^verbatim>\<open>{b: 2}\<close>, \<^verbatim>\<open>m[a]\<close> then raises
  KeyError, and \<^verbatim>\<open>del m[z]\<close> raises KeyError.
\<close>

theorem delitem_then_getitem_witness:
  "invar (init [(PyStr ''a'', PyInt 1), (PyStr ''b'', PyInt 2)]) \<and>
   PyStr ''a'' \<in> set (u_keys (init [(PyStr ''a'', PyInt 1), (PyStr ''b'', PyInt 2)])) \<and>
   PyStr ''z'' \<notin> set (u_keys (init [(PyStr ''a'', PyInt 1), (PyStr ''b'', PyInt 2)])) \<and>
   delitem (init [(PyStr ''a'', PyInt 1), (PyStr ''b'', PyInt 2)]) (PyStr ''a'') =
     (Inr (), init [(PyStr ''b'', PyInt 2)]) \<and>
   fst (getitem (snd (delitem (init [(PyStr ''a'', PyInt 1), (PyStr ''b'', PyInt 2)]) (PyStr ''a'')))
          (PyStr ''a'')) = Inl KeyError \<and>
   delitem (init [(PyStr ''a'', PyInt 1), (PyStr ''b'', PyInt 2)]) (PyStr ''z'') =
     (Inl KeyError, init [(PyStr ''a'', PyInt 1), (PyStr ''b'', PyInt 2)])"
proof -
  let ?s = "init [(PyStr ''a'', PyInt 1), (PyStr ''b'', PyInt 2)]"
  have i: "invar ?s"
    by (rule invar_init)
  have e: "u_keys ?s = [PyStr ''a'', PyStr ''b'']"
    "delitem ?s (PyStr ''a'') = (Inr (), init [(PyStr ''b'', PyInt 2)])"
    "fst (inverse (init [(PyStr ''b'', PyInt 2)])) = [(PyInt 2, PyStr ''b'')]"
    by (simp_all add: run_defs)
  have p: "PyStr ''a'' \<in> set (u_keys ?s)" and z: "PyStr ''z'' \<notin> set (u_keys ?s)"
    by (simp_all add: e(1))
  from delitem_then_getitem [OF i, of "PyStr ''a''"] p
  have "fst (getitem (snd (delitem ?s (PyStr ''a''))) (PyStr ''a'')) =
          (case map_of (fst (inverse (snd (delitem ?s (PyStr ''a''))))) (PyStr ''a'') of
             Some k0 \<Rightarrow> Inr k0
           | None \<Rightarrow> Inl KeyError)"
    by blast
  then have g: "fst (getitem (snd (delitem ?s (PyStr ''a''))) (PyStr ''a'')) = Inl KeyError"
    by (simp add: e(2,3))
  from delitem_then_getitem [OF i, of "PyStr ''z''"] z
  have "delitem ?s (PyStr ''z'') = (Inl KeyError, ?s)"
    by blast
  with i p z e(2) g show ?thesis
    by blast
qed

text \<open>
  C4 as stated fails where the deleted key is also a stored value: on
  \<^verbatim>\<open>{1: 2, 2: 3}\<close>, after \<^verbatim>\<open>del m[2]\<close> the lookup \<^verbatim>\<open>m[2]\<close> returns \<open>1\<close>, the key
  of the value \<open>2\<close>, and raises nothing.
\<close>

theorem delitem_then_getitem_counterexample:
  "PyInt 2 \<in> set (u_keys (init [(PyInt 1, PyInt 2), (PyInt 2, PyInt 3)])) \<and>
   fst (delitem (init [(PyInt 1, PyInt 2), (PyInt 2, PyInt 3)]) (PyInt 2)) = Inr () \<and>
   fst (getitem (snd (delitem (init [(PyInt 1, PyInt 2), (PyInt 2, PyInt 3)]) (PyInt 2))) (PyInt 2)) =
     Inr (PyInt 1)"
  by (simp add: run_defs)

subsection \<open>C5: membership of a stored value\<close>

lemma fold_setitem_contains:
  "dict_contains (fold (\<lambda>item d. dict_setitem d (fst item) (snd item)) ps d) v =
     (dict_contains d v \<or> v \<in> fst ` set ps)"
  using fold_setitem_keys [of ps d] by (auto simp: dict_contains_def)

lemma inverse_contains_values:
  assumes "invar s" and "u_inverse s = None"
  shows "dict_contains (fst (inverse s)) v = (v \<in> set (u_values s))"
proof -
  from assms(1) have "length (u_values s) = length (u_keys s)"
    by (simp add: invar_def)
  then have "map fst (zip (u_values s) (u_keys s)) = u_values s"
    by simp
  then have "fst ` set (zip (u_values s) (u_keys s)) = set (u_values s)"
    by (metis set_map)
  moreover have "dict_contains (fst (inverse s)) v =
      (v \<in> fst ` set (zip (u_values s) (u_keys s)))"
    by (simp add: inverse_first [OF assms] fold_setitem_contains) (simp add: dict_contains_def)
  ultimately show ?thesis
    by simp
qed

text \<open>
  C5, as the code has it. With the cache still empty and \<^verbatim>\<open>_values\<close> listing the values
  the dict stores (as it does until a present key is stored again), \<^verbatim>\<open>v in m\<close> is true
  for every stored value \<open>v\<close>, key or not. In general \<^verbatim>\<open>x in m\<close> is true exactly when
  \<open>x\<close> is in \<^verbatim>\<open>_keys\<close> or has an entry in the inverse view. The call reads
  \<^verbatim>\<open>inverse\<close>, and so leaves the cache filled, exactly when \<open>x\<close> is outside \<^verbatim>\<open>_keys\<close>;
  for \<open>x\<close> in \<^verbatim>\<open>_keys\<close> it answers true and leaves the map, cache included, as it was.
\<close>

theorem contains_value_unbuilt:
  assumes "invar s"
  shows "(u_inverse s = None \<and> u_values s = map snd (super_dict s) \<and>
            v \<in> snd ` set (super_dict s) \<longrightarrow> fst (contains s v)) \<and>
         fst (contains s x) = (x \<in> set (u_keys s) \<or> dict_contains (fst (inverse s)) x) \<and>
         (x \<notin> set (u_keys s) \<longrightarrow>
            snd (contains s x) = snd (inverse s) \<and>
            u_inverse (snd (contains s x)) = Some (fst (inverse s))) \<and>
         (x \<in> set (u_keys s) \<longrightarrow> contains s x = (True, s))"
proof (intro conjI impI)
  assume "u_inverse s = None \<and> u_values s = map snd (super_dict s) \<and>
      v \<in> snd ` set (super_dict s)"
  then have "u_inverse s = None" and "v \<in> set (u_values s)"
    by simp_all
  with inverse_contains_values [OF assms, of v] show "fst (contains s v)"
    by (simp add: contains_unfold)
next
  show "fst (contains s x) = (x \<in> set (u_keys s) \<or> dict_contains (fst (inverse s)) x)"
    by (simp add: contains_unfold)
next
  assume "x \<notin> set (u_keys s)"
  then show "snd (contains s x) = snd (inverse s)"
    and "u_inverse (snd (contains s x)) = Some (fst (inverse s))"
    by (simp_all add: contains_unfold inverse_sets_cache)
next
  assume "x \<in> set (u_keys s)"
  then show "contains s x = (True, s)"
    by (simp add: contains_unfold)
qed

text \<open>
  On \<^verbatim>\<open>{a: 1}\<close>: \<^verbatim>\<open>1 in m\<close> is true although \<open>1\<close> is no key, and the call fills the
  cache with \<^verbatim>\<open>{1: a}\<close>; \<^verbatim>\<open>a in m\<close> is true and leaves the map untouched.
\<close>

theorem contains_value_unbuilt_witness:
  "invar (init [(PyStr ''a'', PyInt 1)]) \<and>
   u_inverse (init [(PyStr ''a'', PyInt 1)]) = None \<and>
   u_values (init [(PyStr ''a'', PyInt 1)]) = map snd (super_dict (init [(PyStr ''a'', PyInt 1)])) \<and>
   PyInt 1 \<in> snd ` set (super_dict (init [(PyStr ''a'', PyInt 1)])) \<and>
   PyInt 1 \<notin> set (u_keys (init [(PyStr ''a'', PyInt 1)])) \<and>
   fst (contains (init [(PyStr ''a'', PyInt 1)]) (PyInt 1)) \<and>
   u_inverse (snd (contains (init [(PyStr ''a'', PyInt 1)]) (PyInt 1))) =
     Some [(PyInt 1, PyStr ''a'')] \<and>
   contains (init [(PyStr ''a'', PyInt 1)]) (PyStr ''a'') = (True, init [(PyStr ''a'', PyInt 1)])"
proof -
  let ?s = "init [(PyStr ''a'', PyInt 1)]"
  have i: "invar ?s"
    by (rule invar_init)
  have e: "u_inverse ?s = None" "u_values ?s = [PyInt 1]" "u_keys ?s = [PyStr ''a'']"
    "fst (inverse ?s) = [(PyInt 1, PyStr ''a'')]" "super_dict ?s = [(PyStr ''a'', PyInt 1)]"
    by (simp_all add: run_defs)
  have m: "u_values ?s = map snd (super_dict ?s)"
    and v: "PyInt 1 \<in> snd ` set (super_dict ?s)" and nk: "PyInt 1 \<notin> set (u_keys ?s)"
    and k: "PyStr ''a'' \<in> set (u_keys ?s)"
    by (simp_all add: e)
  from contains_value_unbuilt [OF i, of "PyInt 1" "PyInt 1"] e(1) m v nk
  have "fst (contains ?s (PyInt 1))"
    and "u_inverse (snd (contains ?s (PyInt 1))) = Some (fst (inverse ?s))"
    by blast+
  moreover from contains_value_unbuilt [OF i, of "PyInt 1" "PyStr ''a''"] k
  have "contains ?s (PyStr ''a'') = (True, ?s)"
    by blast
  ultimately show ?thesis
    using i e(1) m v nk by (simp add: e(4))
qed

text \<open>
  C5 as stated fails twice. With the cache filled first, a value stored afterwards is
  not found: from \<^verbatim>\<open>{a: 1}\<close>, after \<^verbatim>\<open>inverse\<close> and \<^verbatim>\<open>m[c] = 3\<close>, \<open>3\<close> is in
  \<^verbatim>\<open>_values\<close> (which lists the stored values) and stored for \<^verbatim>\<open>c\<close>, yet
  \<^verbatim>\<open>3 in m\<close> is false. And a value that
  is also a key does not get the cache built: on \<^verbatim>\<open>{1: 1}\<close>, \<^verbatim>\<open>1 in m\<close> is true and
  the cache is still empty afterwards.
\<close>

theorem contains_value_counterexample:
  "PyInt 3 \<in> set (u_values (setitem (snd (inverse (init [(PyStr ''a'', PyInt 1)])))
                            (PyStr ''c'') (PyInt 3))) \<and>
   u_values (setitem (snd (inverse (init [(PyStr ''a'', PyInt 1)]))) (PyStr ''c'') (PyInt 3)) =
     map snd (super_dict (setitem (snd (inverse (init [(PyStr ''a'', PyInt 1)])))
                            (PyStr ''c'') (PyInt 3))) \<and>
   map_of (super_dict (setitem (snd (inverse (init [(PyStr ''a'', PyInt 1)])))
                            (PyStr ''c'') (PyInt 3))) (PyStr ''c'') = Some (PyInt 3) \<and>
   \<not> fst (contains (setitem (snd (inverse (init [(PyStr ''a'', PyInt 1)])))
                     (PyStr ''c'') (PyInt 3)) (PyInt 3)) \<and>
   PyInt 1 \<in> set (u_values (init [(PyInt 1, PyInt 1)])) \<and>
   u_inverse (init [(PyInt 1, PyInt 1)]) = None \<and>
   fst (contains (init [(PyInt 1, PyInt 1)]) (PyInt 1)) \<and>
   u_inverse (snd (contains (init [(PyInt 1, PyInt 1)]) (PyInt 1))) = None"
  by (simp add: run_defs)

subsection \<open>C7: inverting twice\<close>

lemma setitem_new_key:
  assumes "invar t" and "v \<notin> set (u_keys t)"
  shows "super_dict (setitem t v k) = super_dict t @ [(v, k)]"
    and "u_keys (setitem t v k) = u_keys t @ [v]"
proof -
  from assms have "v \<notin> set (map fst (super_dict t))"
    by (simp add: invar_def)
  then have "dict_setitem (super_dict t) v k = super_dict t @ [(v, k)]"
    by (rule dict_setitem_new)
  with assms(2) show "super_dict (setitem t v k) = super_dict t @ [(v, k)]"
    by (simp add: setitem_def Let_def)
  from assms(2) show "u_keys (setitem t v k) = u_keys t @ [v]"
    by (simp add: setitem_def Let_def)
qed

lemma fold_setitem_swapped:
  assumes "invar t" and "distinct (map snd ps)" and "set (map snd ps) \<inter> set (u_keys t) = {}"
  shows "super_dict (fold (\<lambda>(key, val) inverted_dict. setitem inverted_dict val key) ps t) =
           super_dict t @ map (\<lambda>(key, val). (val, key)) ps"
  using assms
proof (induction ps arbitrary: t)
  case Nil
  show ?case by simp
next
  case (Cons p ps)
  obtain k v where p: "p = (k, v)"
    by (cases p)
  from Cons.prems p have new: "v \<notin> set (u_keys t)"
    by auto
  have i: "invar (setitem t v k)"
    using Cons.prems(1) by (rule invar_setitem)
  have d: "distinct (map snd ps)"
    using Cons.prems(2) by simp
  have "set (map snd ps) \<inter> set (u_keys (setitem t v k)) = {}"
    using Cons.prems(2,3) p by (auto simp: setitem_new_key(2) [OF Cons.prems(1) new])
  from Cons.IH [OF i d this] show ?case
    by (simp add: p setitem_new_key(1) [OF Cons.prems(1) new])
qed

lemma super_dict_invert:
  assumes "distinct (map snd (super_dict s))"
  shows "super_dict (invert s) = map (\<lambda>(key, val). (val, key)) (super_dict s)"
proof -
  have "set (map snd (super_dict s)) \<inter> set (u_keys (init [])) = {}"
    by (simp add: init_def dict_init_def)
  from fold_setitem_swapped [OF invar_init assms this] show ?thesis
    by (simp add: invert_def init_def dict_init_def)
qed

text \<open>
  C7. For a map whose stored values are unique, \<^verbatim>\<open>invert\<close> stores every entry with
  key and value swapped, in the same order, and inverting the result gives back the
  entries of the original map, so that both answer every dict lookup alike.
\<close>

theorem invert_twice:
  assumes "invar s" and "distinct (map snd (super_dict s))"
  shows "super_dict (invert s) = map (\<lambda>(key, val). (val, key)) (super_dict s) \<and>
         super_dict (invert (invert s)) = super_dict s \<and>
         dict_getitem (super_dict (invert (invert s))) k = dict_getitem (super_dict s) k"
proof -
  have 1: "super_dict (invert s) = map (\<lambda>(key, val). (val, key)) (super_dict s)"
    using assms(2) by (rule super_dict_invert)
  from assms(1) have "distinct (map fst (super_dict s))"
    by (simp add: invar_def)
  then have "distinct (map snd (super_dict (invert s)))"
    by (simp add: 1 comp_def case_prod_unfold)
  then have "super_dict (invert (invert s)) =
      map (\<lambda>(key, val). (val, key)) (super_dict (invert s))"
    by (rule super_dict_invert)
  then have 2: "super_dict (invert (invert s)) = super_dict s"
    by (simp add: 1 comp_def case_prod_unfold)
  from 1 2 show ?thesis
    by simp
qed

text \<open>
  On \<^verbatim>\<open>{a: 1, b: 2}\<close>: \<^verbatim>\<open>invert\<close> stores \<^verbatim>\<open>{1: a, 2: b}\<close>, and inverting that gives
  \<^verbatim>\<open>{a: 1, b: 2}\<close> again.
\<close>

theorem invert_twice_witness:
  "invar (init [(PyStr ''a'', PyInt 1), (PyStr ''b'', PyInt 2)]) \<and>
   distinct (map snd (super_dict (init [(PyStr ''a'', PyInt 1), (PyStr ''b'', PyInt 2)]))) \<and>
   super_dict (invert (init [(PyStr ''a'', PyInt 1), (PyStr ''b'', PyInt 2)])) =
     [(PyInt 1, PyStr ''a''), (PyInt 2, PyStr ''b'')] \<and>
   super_dict (invert (invert (init [(PyStr ''a'', PyInt 1), (PyStr ''b'', PyInt 2)]))) =
     [(PyStr ''a'', PyInt 1), (PyStr ''b'', PyInt 2)]"
proof -
  let ?s = "init [(PyStr ''a'', PyInt 1), (PyStr ''b'', PyInt 2)]"
  have i: "invar ?s"
    by (rule invar_init)
  have e: "super_dict ?s = [(PyStr ''a'', PyInt 1), (PyStr ''b'', PyInt 2)]"
    by (simp add: run_defs)
  have d: "distinct (map snd (super_dict ?s))"
    by (simp add: e)
  from invert_twice [OF i d] i d show ?thesis
    by (simp add: e)
qed

subsection \<open>C9: deleting a key with the cache filled\<close>

text \<open>
  C9, as the code has it. With the cache filled, \<^verbatim>\<open>del m[k]\<close> for a key in
  \<^verbatim>\<open>_keys\<close> leaves the cache as it is: a value \<open>v\<close> the cache maps to \<open>k\<close> still has
  \<^verbatim>\<open>m.inverse[v]\<close> equal to \<open>k\<close>. The lookup \<^verbatim>\<open>m[v]\<close> returns \<open>k\<close> when \<open>v\<close> is outside
  \<^verbatim>\<open>_keys\<close> after the deletion; when \<open>v\<close> is still a key, the forward lookup comes
  first and \<^verbatim>\<open>m[v]\<close> is what it was before the deletion.
\<close>

theorem delitem_keeps_cache:
  assumes "invar s" and "u_inverse s = Some m" and "k \<in> set (u_keys s)"
    and "map_of m v = Some k"
  shows "fst (delitem s k) = Inr () \<and>
         u_inverse (snd (delitem s k)) = Some m \<and>
         fst (inverse (snd (delitem s k))) = m \<and>
         fst (inverse_getitem (snd (delitem s k)) v) = Inr k \<and>
         (v \<notin> set (u_keys (snd (delitem s k))) \<longrightarrow>
            fst (getitem (snd (delitem s k)) v) = Inr k) \<and>
         (v \<in> set (u_keys (snd (delitem s k))) \<longrightarrow>
            fst (getitem (snd (delitem s k)) v) = fst (getitem s v))"
proof -
  let ?s' = "snd (delitem s k)"
  from delitem_present [OF assms(1,3)] obtain i where
    d: "delitem s k =
          (Inr (), s\<lparr>super_dict := filter (\<lambda>p. fst p \<noteq> k) (super_dict s),
                     u_keys := take i (u_keys s) @ drop (Suc i) (u_keys s),
                     u_values := take i (u_values s) @ drop (Suc i) (u_values s)\<rparr>)"
    by blast
  then have ok: "fst (delitem s k) = Inr ()"
    by simp
  have c: "u_inverse ?s' = Some m"
    using assms(2) by (simp add: u_inverse_delitem)
  then have inv: "fst (inverse ?s') = m"
    by (simp add: inverse_cached)
  have ig: "fst (inverse_getitem ?s' v) = Inr k"
    using assms(4) by (simp add: inverse_getitem_unfold inv dict_getitem_def)
  have out: "v \<notin> set (u_keys ?s') \<longrightarrow> fst (getitem ?s' v) = Inr k"
    using assms(4) by (simp add: getitem_outside_keys inv)
  have sd: "super_dict ?s' = filter (\<lambda>p. fst p \<noteq> k) (super_dict s)"
    using d by simp
  have "invar ?s'"
    using assms(1) by (rule invar_delitem)
  then have ks': "u_keys ?s' = map fst (super_dict ?s')"
    by (simp add: invar_def)
  from assms(1) have ks: "u_keys s = map fst (super_dict s)"
    by (simp add: invar_def)
  have "v \<in> set (u_keys ?s') \<longrightarrow> fst (getitem ?s' v) = fst (getitem s v)"
  proof
    assume v: "v \<in> set (u_keys ?s')"
    with ks' sd have "v \<noteq> k" and "v \<in> set (u_keys s)"
      by (auto simp: ks)
    with v show "fst (getitem ?s' v) = fst (getitem s v)"
      by (simp add: getitem_unfold dict_getitem_def sd map_of_filter_other_keys)
  qed
  with ok c inv ig out show ?thesis
    by blast
qed

text \<open>
  On \<^verbatim>\<open>{a: 1, b: 2}\<close> with the cache \<^verbatim>\<open>{1: a, 2: b}\<close>: after \<^verbatim>\<open>del m[a]\<close>, both
  \<^verbatim>\<open>m.inverse[1]\<close> and \<^verbatim>\<open>m[1]\<close> are still \<^verbatim>\<open>a\<close>.
\<close>

theorem delitem_keeps_cache_witness:
  "invar (snd (inverse (init [(PyStr ''a'', PyInt 1), (PyStr ''b'', PyInt 2)]))) \<and>
   u_inverse (snd (inverse (init [(PyStr ''a'', PyInt 1), (PyStr ''b'', PyInt 2)]))) =
     Some [(PyInt 1, PyStr ''a''), (PyInt 2, PyStr ''b'')] \<and>
   PyStr ''a'' \<in> set (u_keys (snd (inverse (init [(PyStr ''a'', PyInt 1), (PyStr ''b'', PyInt 2)])))) \<and>
   fst (delitem (snd (inverse (init [(PyStr ''a'', PyInt 1), (PyStr ''b'', PyInt 2)]))) (PyStr ''a'')) =
     Inr () \<and>
   fst (inverse_getitem
          (snd (delitem (snd (inverse (init [(PyStr ''a'', PyInt 1), (PyStr ''b'', PyInt 2)])))
                  (PyStr ''a'')))
          (PyInt 1)) = Inr (PyStr ''a'') \<and>
   fst (getitem
          (snd (delitem (snd (inverse (init [(PyStr ''a'', PyInt 1), (PyStr ''b'', PyInt 2)])))
                  (PyStr ''a'')))
          (PyInt 1)) = Inr (PyStr ''a'')"
proof -
  let ?s = "snd (inverse (init [(PyStr ''a'', PyInt 1), (PyStr ''b'', PyInt 2)]))"
  have i: "invar ?s"
    by (intro invar_inverse invar_init)
  have c: "u_inverse ?s = Some [(PyInt 1, PyStr ''a''), (PyInt 2, PyStr ''b'')]"
    by (simp add: run_defs)
  have k: "PyStr ''a'' \<in> set (u_keys ?s)"
    by (simp add: run_defs)
  have m: "map_of [(PyInt 1, PyStr ''a''), (PyInt 2, PyStr ''b'')] (PyInt 1) = Some (PyStr ''a'')"
    by simp
  have n: "PyInt 1 \<notin> set (u_keys (snd (delitem ?s (PyStr ''a''))))"
    by (simp add: run_defs)
  from delitem_keeps_cache [OF i c k m] n i c k show ?thesis
    by blast
qed

text \<open>
  C9 as stated fails where the value is itself a key: on \<^verbatim>\<open>{1: 2, 2: 3}\<close> with the
  cache \<^verbatim>\<open>{2: 1, 3: 2}\<close>, after \<^verbatim>\<open>del m[1]\<close> the value \<open>2\<close> still has
  \<^verbatim>\<open>m.inverse[2]\<close> equal to \<open>1\<close>, but \<^verbatim>\<open>m[2]\<close> is \<open>3\<close>, not \<open>1\<close>.
\<close>

theorem delitem_keeps_cache_counterexample:
  "u_inverse (snd (inverse (init [(PyInt 1, PyInt 2), (PyInt 2, PyInt 3)]))) =
     Some [(PyInt 2, PyInt 1), (PyInt 3, PyInt 2)] \<and>
   PyInt 1 \<in> set (u_keys (snd (inverse (init [(PyInt 1, PyInt 2), (PyInt 2, PyInt 3)])))) \<and>
   fst (delitem (snd (inverse (init [(PyInt 1, PyInt 2), (PyInt 2, PyInt 3)]))) (PyInt 1)) = Inr () \<and>
   fst (inverse_getitem
          (snd (delitem (snd (inverse (init [(PyInt 1, PyInt 2), (PyInt 2, PyInt 3)]))) (PyInt 1)))
          (PyInt 2)) = Inr (PyInt 1) \<and>
   fst (getitem
          (snd (delitem (snd (inverse (init [(PyInt 1, PyInt 2), (PyInt 2, PyInt 3)]))) (PyInt 1)))
          (PyInt 2)) = Inr (PyInt 3)"
  by (simp add: run_defs)

end
